theory Spec2Isabelle
  imports Main "HOL-Library.AList"
begin

section \<open>Data model\<close>

text \<open>
  The functions of \<^verbatim>\<open>PS1/src/algorithm.ts\<close> work on JavaScript objects: a
  \<^verbatim>\<open>Set<Flashcard>\<close> is a mutable object that several containers may hold at
  once, and \<^verbatim>\<open>update\<close> changes such objects in place. The embedding therefore
  keeps the Set objects in an explicit store and lets maps and arrays hold references.

  A flashcard inside a Set is compared by object identity, so the bucket functions are
  polymorphic in the type \<open>'c\<close> of card identities. A Set keeps its elements in
  insertion order without repetition: it is a list, and the operations below are the
  methods the source calls.
\<close>

type_synonym 'c Set = "'c list"

definition Set_has :: "'c Set \<Rightarrow> 'c \<Rightarrow> bool" where
  "Set_has s x = (x \<in> set s)"

definition Set_add :: "'c \<Rightarrow> 'c Set \<Rightarrow> 'c Set" where
  "Set_add x s = (if x \<in> set s then s else s @ [x])"

definition Set_delete :: "'c \<Rightarrow> 'c Set \<Rightarrow> 'c Set" where
  "Set_delete x s = removeAll x s"

definition Set_size :: "'c Set \<Rightarrow> nat" where
  "Set_size s = length s"

text \<open>
  The store: the Set object with reference \<open>r\<close> is \<open>h ! r\<close>; \<^verbatim>\<open>new Set()\<close>
  appends an empty Set and its reference is the old length of the store.
\<close>

type_synonym ref = nat
type_synonym 'c heap = "'c Set list"

text \<open>
  Modelled from the spec: the type \<^verbatim>\<open>BucketMap\<close> of \<^verbatim>\<open>flashcards.ts\<close>, a Map from
  bucket number to a Set of flashcards. A JavaScript Map iterates in insertion order, so
  it is an association list from bucket number to the reference of the bucket's Set.
  \<^verbatim>\<open>Array<Set<Flashcard>>\<close> is a list of references.
\<close>

type_synonym BucketMap = "(int \<times> ref) list"
type_synonym BucketArray = "ref list"

definition Map_size :: "BucketMap \<Rightarrow> int" where
  "Map_size m = int (length m)"

definition Map_get :: "BucketMap \<Rightarrow> int \<Rightarrow> ref option" where
  "Map_get m k = map_of m k"

definition Map_has :: "BucketMap \<Rightarrow> int \<Rightarrow> bool" where
  "Map_has m k = (map_of m k \<noteq> None)"

definition Map_set :: "BucketMap \<Rightarrow> int \<Rightarrow> ref \<Rightarrow> BucketMap" where
  "Map_set m k r = AList.update k r m"

text \<open>
  A store and a map fit together when the map's keys are pairwise different (which a
  JavaScript Map guarantees) and every reference points into the store (which holds of
  every reference a program can have).
\<close>

definition wf_buckets :: "'c heap \<Rightarrow> BucketMap \<Rightarrow> bool" where
  "wf_buckets h m = (distinct (map fst m) \<and> list_all (\<lambda>r. r < length h) (map snd m))"

text \<open>A valid bucket map has no negative bucket number.\<close>

definition valid_keys :: "BucketMap \<Rightarrow> bool" where
  "valid_keys m = list_all (\<lambda>k. 0 \<le> k) (map fst m)"

text \<open>The cards of bucket \<open>k\<close> of map \<open>m\<close> in store \<open>h\<close>; none when the key is absent.\<close>

definition bucket_cards :: "'c heap \<Rightarrow> BucketMap \<Rightarrow> int \<Rightarrow> 'c set" where
  "bucket_cards h m k = (case Map_get m k of None \<Rightarrow> {} | Some r \<Rightarrow> set (h ! r))"

text \<open>What a reader of map \<open>m\<close> sees in store \<open>h\<close>: every key with its cards.\<close>

definition contents :: "'c heap \<Rightarrow> BucketMap \<Rightarrow> (int \<times> 'c Set) list" where
  "contents h m = map (\<lambda>(k, r). (k, h ! r)) m"

text \<open>Some bucket of the map has the card.\<close>

definition card_present :: "'c heap \<Rightarrow> BucketMap \<Rightarrow> 'c \<Rightarrow> bool" where
  "card_present h m c = (\<exists>(k, r) \<in> set m. c \<in> set (h ! r))"

text \<open>Every key holds a Set object of its own: no two keys share one.\<close>

definition own_sets :: "BucketMap \<Rightarrow> bool" where
  "own_sets m = distinct (map snd m)"

text \<open>The invariant of the bucket map: no card is in two buckets.\<close>

definition one_bucket_per_card :: "'c heap \<Rightarrow> BucketMap \<Rightarrow> bool" where
  "one_bucket_per_card h m =
     (\<forall>k \<in> fst ` set m. \<forall>k' \<in> fst ` set m.
        k \<noteq> k' \<longrightarrow> bucket_cards h m k \<inter> bucket_cards h m k' = {})"

text \<open>Both failures of the source are \<^verbatim>\<open>throw new Error(message)\<close>.\<close>

datatype error = Error string

text \<open>
  Modelled from the spec: the enum \<^verbatim>\<open>AnswerDifficulty\<close> of \<^verbatim>\<open>flashcards.ts\<close>, with
  its three outcomes.
\<close>

datatype AnswerDifficulty = Wrong | Hard | Easy

text \<open>
  Modelled from the spec: the class \<^verbatim>\<open>Flashcard\<close> of \<^verbatim>\<open>flashcards.ts\<close>, an
  immutable value with a front, a back (\<open>back\<close> is a keyword here, hence
  \<open>back_text\<close>), a hint and a set of tags.
\<close>

record Flashcard =
  front :: string
  back_text :: string
  hint :: string
  tags :: "string list"

section \<open>The functions of algorithm.ts\<close>

subsection \<open>toBucketSets\<close>

text \<open>
  \<^verbatim>\<open>buckets.size > 0 ? Math.max(...buckets.keys()) : -1\<close>: the guard and the
  maximum in one case distinction.
\<close>

definition maxBucket_of :: "BucketMap \<Rightarrow> int" where
  "maxBucket_of buckets = (case map fst buckets of [] \<Rightarrow> - 1 | k # ks \<Rightarrow> fold max ks k)"

text \<open>
  One turn of the loop, \<^verbatim>\<open>bucketArray.push(buckets.get(i) || new Set())\<close>: a Set
  object is truthy, so the right operand is taken exactly when the key is absent.
\<close>

definition toBucketSets_step ::
    "BucketMap \<Rightarrow> int \<Rightarrow> BucketArray \<times> 'c heap \<Rightarrow> BucketArray \<times> 'c heap" where
  "toBucketSets_step buckets i st =
     (case Map_get buckets i of
        Some r \<Rightarrow> (fst st @ [r], snd st)
      | None \<Rightarrow> (fst st @ [length (snd st)], snd st @ [[]]))"

definition toBucketSets :: "'c heap \<Rightarrow> BucketMap \<Rightarrow> BucketArray \<times> 'c heap" where
  "toBucketSets h buckets =
     fold (toBucketSets_step buckets) [0..maxBucket_of buckets] ([], h)"

subsection \<open>getBucketRange\<close>

record bucket_range =
  minBucket :: int
  maxBucket :: int

definition nonEmptyBuckets :: "'c heap \<Rightarrow> BucketArray \<Rightarrow> int list" where
  "nonEmptyBuckets h buckets =
     filter (\<lambda>index. index \<noteq> - 1)
       (map (\<lambda>(s, index). if Set_size (h ! s) > 0 then int index else - 1)
         (zip buckets [0..<length buckets]))"

definition getBucketRange :: "'c heap \<Rightarrow> BucketArray \<Rightarrow> bucket_range option" where
  "getBucketRange h buckets =
     (case nonEmptyBuckets h buckets of
        [] \<Rightarrow> None
      | i # is \<Rightarrow> Some \<lparr>minBucket = fold min is i, maxBucket = fold max is i\<rparr>)"

subsection \<open>practice\<close>

text \<open>
  JavaScript's \<^verbatim>\<open>%\<close> on integers: the remainder of the truncating division, with
  the sign of the dividend.
\<close>

definition js_rem :: "int \<Rightarrow> int \<Rightarrow> int" where
  "js_rem a b = sgn a * (\<bar>a\<bar> mod \<bar>b\<bar>)"

definition practice_step :: "'c heap \<Rightarrow> BucketArray \<Rightarrow> int \<Rightarrow> nat \<Rightarrow> 'c Set \<Rightarrow> 'c Set" where
  "practice_step h buckets day i selectedCards =
     (if js_rem day (int i + 1) = 0
      then fold Set_add (h ! (buckets ! i)) selectedCards
      else selectedCards)"

definition practice :: "'c heap \<Rightarrow> BucketArray \<Rightarrow> int \<Rightarrow> error + 'c Set" where
  "practice h buckets day =
     (if day < 0 then Inl (Error ''Day number must be non-negative'')
      else Inr (fold (practice_step h buckets day) [0..<length buckets] []))"

text \<open>
  The variant of \<^verbatim>\<open>practice\<close> in the second copy of the file
  (\<^verbatim>\<open>src/unnamed/part_000\<close>): bucket \<open>i\<close> is taken when the day is a multiple of
  \<open>2 ^ i\<close>. The copy under \<^verbatim>\<open>PS1/src\<close> notes the change from it.
\<close>

definition practice_pow2 :: "'c heap \<Rightarrow> BucketArray \<Rightarrow> int \<Rightarrow> error + 'c Set" where
  "practice_pow2 h buckets day =
     (if day < 0 then Inl (Error ''Day number must be non-negative'')
      else Inr (fold Set_add
        (concat (map (\<lambda>(s, bucketIndex). if js_rem day (2 ^ bucketIndex) = 0 then h ! s else [])
          (zip buckets [0..<length buckets]))) []))"

subsection \<open>update\<close>

text \<open>
  \<^verbatim>\<open>Array.from(buckets.entries()).find(([_, cards]) => cards.has(card))?.[0]\<close>:
  the key of the first entry, in insertion order, whose Set has the card.
\<close>

definition currentBucket_of :: "'c heap \<Rightarrow> BucketMap \<Rightarrow> 'c \<Rightarrow> int option" where
  "currentBucket_of h buckets flashcard =
     map_option fst (find (\<lambda>(k, cards). Set_has (h ! cards) flashcard) buckets)"

definition bucketAdjustment :: "AnswerDifficulty \<Rightarrow> int" where
  "bucketAdjustment difficulty =
     (if difficulty = Easy then 1 else if difficulty = Hard then - 1 else 0)"

definition newBucket_of :: "BucketMap \<Rightarrow> int \<Rightarrow> AnswerDifficulty \<Rightarrow> int" where
  "newBucket_of buckets currentBucket difficulty =
     max 0 (min (currentBucket + bucketAdjustment difficulty) (Map_size buckets - 1))"

text \<open>\<^verbatim>\<open>m.get(k)?.delete(card)\<close> and \<^verbatim>\<open>m.get(k)?.add(card)\<close>: the Set object
  the key refers to is changed in the store; nothing happens when the key is absent.\<close>

definition delete_at :: "'c heap \<Rightarrow> BucketMap \<Rightarrow> int \<Rightarrow> 'c \<Rightarrow> 'c heap" where
  "delete_at h m k flashcard =
     (case Map_get m k of None \<Rightarrow> h | Some r \<Rightarrow> h[r := Set_delete flashcard (h ! r)])"

definition add_at :: "'c heap \<Rightarrow> BucketMap \<Rightarrow> int \<Rightarrow> 'c \<Rightarrow> 'c heap" where
  "add_at h m k flashcard =
     (case Map_get m k of None \<Rightarrow> h | Some r \<Rightarrow> h[r := Set_add flashcard (h ! r)])"

text \<open>
  \<^verbatim>\<open>new Map(buckets)\<close> copies the entries: the new Map has the same keys, each with
  the reference of the same Set object. The result is the new Map and the store after
  the call.
\<close>

definition update ::
    "'c heap \<Rightarrow> BucketMap \<Rightarrow> 'c \<Rightarrow> AnswerDifficulty \<Rightarrow> error + (BucketMap \<times> 'c heap)" where
  "update h buckets flashcard difficulty =
     (case currentBucket_of h buckets flashcard of
        None \<Rightarrow> Inl (Error ''Card not found'')
      | Some currentBucket \<Rightarrow>
          let newBucket = newBucket_of buckets currentBucket difficulty;
              newBuckets = buckets;
              h1 = delete_at h newBuckets currentBucket flashcard;
              (newBuckets', h2) =
                (if \<not> Map_has newBuckets newBucket
                 then (Map_set newBuckets newBucket (length h1), h1 @ [[]])
                 else (newBuckets, h1));
              h3 = add_at h2 newBuckets' newBucket flashcard
          in Inr (newBuckets', h3))"

subsection \<open>getHint\<close>

text \<open>
  \<^verbatim>\<open>String.prototype.trim\<close> removes white space and line terminators from both
  ends. Of the code points ECMAScript lists, those a \<open>char\<close> can hold are tab, line
  feed, vertical tab, form feed, carriage return, space and no-break space.
\<close>

definition is_white :: "char \<Rightarrow> bool" where
  "is_white c = (of_char c \<in> {9, 10, 11, 12, 13, 32, 160 :: nat})"

definition trim :: "string \<Rightarrow> string" where
  "trim s = rev (dropWhile is_white (rev (dropWhile is_white s)))"

text \<open>\<^verbatim>\<open>a || b\<close> on strings: the empty string is the only falsy one.\<close>

definition getHint :: "Flashcard \<Rightarrow> string" where
  "getHint flashcard =
     (if trim (hint flashcard) \<noteq> [] then trim (hint flashcard)
      else ''Think about the key concepts related to '' @ front flashcard)"

section \<open>Maps and the store\<close>

lemma Map_get_SomeD: "Map_get m k = Some r \<Longrightarrow> (k, r) \<in> set m"
  by (simp add: Map_get_def map_of_SomeD)

lemma wf_map_of:
  assumes "wf_buckets h m" and "(k, r) \<in> set m"
  shows "Map_get m k = Some r" and "r < length h"
proof -
  from assms show "Map_get m k = Some r"
    by (simp add: wf_buckets_def Map_get_def)
  from assms show "r < length h"
    by (auto simp: wf_buckets_def list_all_iff)
qed

lemma wf_Map_get:
  assumes "wf_buckets h m" and "Map_get m k = Some r"
  shows "r < length h"
  using assms wf_map_of(2) [of h m k r] by (auto simp: Map_get_def dest: map_of_SomeD)

section \<open>Bucket representation conversion\<close>

lemma maxBucket_of_Nil: "maxBucket_of [] = - 1"
  by (simp add: maxBucket_of_def)

lemma maxBucket_of_Max:
  assumes "m \<noteq> []"
  shows "maxBucket_of m = Max (fst ` set m)"
proof -
  from assms obtain p ps where m: "m = p # ps" by (cases m) auto
  have "fold max (map fst ps) (fst p) = Max (set (fst p # map fst ps))"
    by (rule Max.set_eq_fold [symmetric])
  then show ?thesis by (simp add: maxBucket_of_def m)
qed

lemma maxBucket_of_nonneg:
  assumes "m \<noteq> []" and "valid_keys m"
  shows "0 \<le> maxBucket_of m"
proof -
  from assms(1) have "Max (fst ` set m) \<in> fst ` set m"
    by (intro Max_in) simp_all
  with assms(2) have "0 \<le> Max (fst ` set m)"
    by (auto simp: valid_keys_def list_all_iff)
  with assms(1) show ?thesis by (simp add: maxBucket_of_Max)
qed

lemma toBucketSets_step_Some:
  "Map_get m i = Some r \<Longrightarrow> toBucketSets_step m i (arr, hp) = (arr @ [r], hp)"
  by (simp add: toBucketSets_step_def)

lemma toBucketSets_step_None:
  "Map_get m i = None \<Longrightarrow> toBucketSets_step m i (arr, hp) = (arr @ [length hp], hp @ [[]])"
  by (simp add: toBucketSets_step_def)

text \<open>
  The loop of \<^verbatim>\<open>toBucketSets\<close> over any list of indices: it appends one reference per
  index and only ever adds empty Sets to the store.
\<close>

lemma fold_toBucketSets_step:
  "\<exists>arr' n. fold (toBucketSets_step m) is (arr, hp) = (arr @ arr', hp @ replicate n []) \<and>
     length arr' = length is \<and>
     (\<forall>j < length is. \<forall>r. Map_get m (is ! j) = Some r \<longrightarrow> arr' ! j = r) \<and>
     (\<forall>j < length is. Map_get m (is ! j) = None \<longrightarrow>
        length hp \<le> arr' ! j \<and> arr' ! j < length hp + n)"
proof (induction "is" rule: rev_induct)
  case Nil
  have "fold (toBucketSets_step m) [] (arr, hp) = (arr @ [], hp @ replicate 0 [])" by simp
  then show ?case by (intro exI [of _ "[]"] exI [of _ 0]) simp
next
  case (snoc i "is")
  then obtain arr' n where run: "fold (toBucketSets_step m) is (arr, hp) = (arr @ arr', hp @ replicate n [])"
    and len: "length arr' = length is"
    and some: "\<And>j r. j < length is \<Longrightarrow> Map_get m (is ! j) = Some r \<Longrightarrow> arr' ! j = r"
    and none: "\<And>j. j < length is \<Longrightarrow> Map_get m (is ! j) = None \<Longrightarrow>
        length hp \<le> arr' ! j \<and> arr' ! j < length hp + n"
    by blast
  show ?case
  proof (cases "Map_get m i")
    case (Some r)
    have "fold (toBucketSets_step m) (is @ [i]) (arr, hp) = (arr @ (arr' @ [r]), hp @ replicate n [])"
      by (simp add: run toBucketSets_step_Some [OF Some])
    moreover have "length (arr' @ [r]) = length (is @ [i])" by (simp add: len)
    moreover have "(arr' @ [r]) ! j = r'"
      if "j < length (is @ [i])" "Map_get m ((is @ [i]) ! j) = Some r'" for j r'
    proof (cases "j < length is")
      case True
      with that some [of j r'] show ?thesis by (simp add: nth_append len)
    next
      case False
      with that have "j = length is" by simp
      with that Some show ?thesis by (simp add: nth_append len)
    qed
    moreover have "length hp \<le> (arr' @ [r]) ! j \<and> (arr' @ [r]) ! j < length hp + n"
      if "j < length (is @ [i])" "Map_get m ((is @ [i]) ! j) = None" for j
    proof (cases "j < length is")
      case True
      with that none [of j] show ?thesis by (simp add: nth_append len)
    next
      case False
      with that have "j = length is" by simp
      with that Some show ?thesis by simp
    qed
    ultimately show ?thesis by blast
  next
    case None
    have "fold (toBucketSets_step m) (is @ [i]) (arr, hp)
        = (arr @ (arr' @ [length hp + n]), hp @ replicate (Suc n) [])"
      by (simp add: run toBucketSets_step_None [OF None] replicate_append_same)
    moreover have "length (arr' @ [length hp + n]) = length (is @ [i])" by (simp add: len)
    moreover have "(arr' @ [length hp + n]) ! j = r'"
      if "j < length (is @ [i])" "Map_get m ((is @ [i]) ! j) = Some r'" for j r'
    proof (cases "j < length is")
      case True
      with that some [of j r'] show ?thesis by (simp add: nth_append len)
    next
      case False
      with that have "j = length is" by simp
      with that None show ?thesis by simp
    qed
    moreover have "length hp \<le> (arr' @ [length hp + n]) ! j \<and>
        (arr' @ [length hp + n]) ! j < length hp + Suc n"
      if "j < length (is @ [i])" "Map_get m ((is @ [i]) ! j) = None" for j
    proof (cases "j < length is")
      case True
      with that none [of j] show ?thesis by (simp add: nth_append len)
    next
      case False
      with that have "j = length is" by simp
      then show ?thesis by (simp add: nth_append len)
    qed
    ultimately show ?thesis by blast
  qed
qed

text \<open>
  C5: for a bucket map with keys that are not negative, \<^verbatim>\<open>toBucketSets\<close> returns an
  array of length 0 when the map is empty and of length (largest key + 1) otherwise;
  index \<open>i\<close> holds the Set stored at key \<open>i\<close>, or an empty Set when the key is absent.
  The function has no error path, and the Sets already in the store are as before.
\<close>

theorem toBucketSets_dense:
  assumes wf: "wf_buckets h m" and valid: "valid_keys m"
  shows "\<exists>arr h'. toBucketSets h m = (arr, h') \<and>
     (m = [] \<longrightarrow> length arr = 0) \<and>
     (m \<noteq> [] \<longrightarrow> int (length arr) = Max (fst ` set m) + 1) \<and>
     (\<forall>i < length arr.
        h' ! (arr ! i) = (case Map_get m (int i) of Some r \<Rightarrow> h ! r | None \<Rightarrow> [])) \<and>
     (\<forall>r < length h. h' ! r = h ! r)"
proof -
  let ?is = "[0..maxBucket_of m]"
  from fold_toBucketSets_step [of m ?is "[]" h] obtain arr n
    where run: "toBucketSets h m = (arr, h @ replicate n [])"
      and len: "length arr = length ?is"
      and some: "\<And>j r. j < length ?is \<Longrightarrow> Map_get m (?is ! j) = Some r \<Longrightarrow> arr ! j = r"
      and none: "\<And>j. j < length ?is \<Longrightarrow> Map_get m (?is ! j) = None \<Longrightarrow>
          length h \<le> arr ! j \<and> arr ! j < length h + n"
    unfolding toBucketSets_def by auto
  have idx: "?is ! j = int j" if "j < length ?is" for j
    using that by (simp add: nth_upto)
  have empty: "length arr = 0" if "m = []"
    using that by (simp add: len maxBucket_of_Nil)
  have full: "int (length arr) = Max (fst ` set m) + 1" if "m \<noteq> []"
  proof -
    from that valid have "0 \<le> maxBucket_of m" by (rule maxBucket_of_nonneg)
    then have "int (length arr) = maxBucket_of m + 1" by (simp add: len)
    with that show ?thesis by (simp add: maxBucket_of_Max)
  qed
  have cells: "(h @ replicate n []) ! (arr ! i)
      = (case Map_get m (int i) of Some r \<Rightarrow> h ! r | None \<Rightarrow> [])" if "i < length arr" for i
  proof (cases "Map_get m (int i)")
    case None
    from that have i: "i < length ?is" by (simp add: len)
    with None none [of i] have "length h \<le> arr ! i" "arr ! i < length h + n"
      by (simp_all add: idx)
    then have "(h @ replicate n []) ! (arr ! i) = []"
      by (simp add: nth_append)
    with None show ?thesis by simp
  next
    case (Some r)
    from that have i: "i < length ?is" by (simp add: len)
    with Some some [of i r] have "arr ! i = r" by (simp add: idx)
    moreover from wf Some have "r < length h" by (rule wf_Map_get)
    ultimately show ?thesis using Some by (simp add: nth_append)
  qed
  have old: "(h @ replicate n []) ! r = h ! r" if "r < length h" for r
    using that by (simp add: nth_append)
  from run empty full cells old show ?thesis by blast
qed

theorem toBucketSets_dense_witness:
  "wf_buckets [[7 :: nat]] [(2, 0)] \<and> valid_keys [(2, 0)] \<and>
   (\<exists>arr h'. toBucketSets [[7 :: nat]] [(2, 0)] = (arr, h') \<and> int (length arr) = 3 \<and>
      h' ! (arr ! 0) = [] \<and> h' ! (arr ! 1) = [] \<and> h' ! (arr ! 2) = [7])"
proof -
  let ?h = "[[7 :: nat]]"
  let ?m = "[(2, 0)] :: BucketMap"
  have wf: "wf_buckets ?h ?m" by (simp add: wf_buckets_def)
  have valid: "valid_keys ?m" by (simp add: valid_keys_def)
  from toBucketSets_dense [OF wf valid] obtain arr h'
    where run: "toBucketSets ?h ?m = (arr, h')"
      and len: "int (length arr) = Max (fst ` set ?m) + 1"
      and cells: "\<And>i. i < length arr \<Longrightarrow>
        h' ! (arr ! i) = (case Map_get ?m (int i) of Some r \<Rightarrow> ?h ! r | None \<Rightarrow> [])"
    by auto
  from len have l3: "length arr = 3" by simp
  have "h' ! (arr ! 0) = []" using cells [of 0] by (simp add: l3 Map_get_def)
  moreover have "h' ! (arr ! 1) = []" using cells [of 1] by (simp add: l3 Map_get_def)
  moreover have "h' ! (arr ! 2) = [7]" using cells [of 2] by (simp add: l3 Map_get_def)
  ultimately show ?thesis using wf valid run l3 by simp
qed


section \<open>Progress range query\<close>

lemma zip_indices: "zip xs [0..<length xs] = map (\<lambda>i. (xs ! i, i)) [0..<length xs]"
  by (rule nth_equalityI) simp_all

lemma nonEmptyBuckets_eq:
  "nonEmptyBuckets h buckets =
     map int (filter (\<lambda>i. h ! (buckets ! i) \<noteq> []) [0..<length buckets])"
proof -
  let ?f = "\<lambda>i. if h ! (buckets ! i) \<noteq> [] then int i else - 1"
  have "nonEmptyBuckets h buckets = filter (\<lambda>index. index \<noteq> - 1) (map ?f [0..<length buckets])"
    by (simp add: nonEmptyBuckets_def zip_indices Set_size_def o_def)
  also have "\<dots> = map ?f (filter (\<lambda>i. h ! (buckets ! i) \<noteq> []) [0..<length buckets])"
    by (simp add: filter_map o_def)
  also have "\<dots> = map int (filter (\<lambda>i. h ! (buckets ! i) \<noteq> []) [0..<length buckets])"
    by (rule map_cong) simp_all
  finally show ?thesis .
qed

lemma set_nonEmptyBuckets:
  "set (nonEmptyBuckets h buckets) = int ` {i. i < length buckets \<and> h ! (buckets ! i) \<noteq> []}"
  by (auto simp: nonEmptyBuckets_eq)

lemma getBucketRange_None:
  "getBucketRange h buckets = None \<longleftrightarrow> (\<forall>i < length buckets. h ! (buckets ! i) = [])"
proof -
  have "getBucketRange h buckets = None \<longleftrightarrow> set (nonEmptyBuckets h buckets) = {}"
    by (simp add: getBucketRange_def split: list.split)
  then show ?thesis unfolding set_nonEmptyBuckets by auto
qed

lemma getBucketRange_Some:
  assumes "getBucketRange h buckets = Some r"
  shows "minBucket r = Min (set (nonEmptyBuckets h buckets))"
    and "maxBucket r = Max (set (nonEmptyBuckets h buckets))"
    and "set (nonEmptyBuckets h buckets) \<noteq> {}"
proof -
  from assms obtain i "is" where ne: "nonEmptyBuckets h buckets = i # is"
    and r: "r = \<lparr>minBucket = fold min is i, maxBucket = fold max is i\<rparr>"
    by (auto simp: getBucketRange_def split: list.splits)
  show "minBucket r = Min (set (nonEmptyBuckets h buckets))"
    unfolding ne r using Min.set_eq_fold [of i "is"] by simp
  show "maxBucket r = Max (set (nonEmptyBuckets h buckets))"
    unfolding ne r using Max.set_eq_fold [of i "is"] by simp
  show "set (nonEmptyBuckets h buckets) \<noteq> {}"
    unfolding ne by simp
qed

text \<open>
  C6: \<^verbatim>\<open>getBucketRange\<close> returns nothing exactly when the array has length 0 or all
  its Sets are empty; otherwise \<open>minBucket\<close> is the lowest and \<open>maxBucket\<close> the highest
  index of a Set that is not empty, and \<open>minBucket \<le> maxBucket\<close>.
\<close>

theorem getBucketRange_lowest_and_highest:
  "(getBucketRange h buckets = None \<longleftrightarrow>
      length buckets = 0 \<or> (\<forall>i < length buckets. Set_size (h ! (buckets ! i)) = 0)) \<and>
   (\<forall>r. getBucketRange h buckets = Some r \<longrightarrow>
      (\<exists>lo hi. minBucket r = int lo \<and> maxBucket r = int hi \<and>
         lo < length buckets \<and> hi < length buckets \<and>
         Set_size (h ! (buckets ! lo)) > 0 \<and> Set_size (h ! (buckets ! hi)) > 0 \<and>
         (\<forall>i < length buckets. Set_size (h ! (buckets ! i)) > 0 \<longrightarrow> lo \<le> i \<and> i \<le> hi) \<and>
         minBucket r \<le> maxBucket r))"
proof (intro conjI allI impI)
  show "getBucketRange h buckets = None \<longleftrightarrow>
      length buckets = 0 \<or> (\<forall>i < length buckets. Set_size (h ! (buckets ! i)) = 0)"
    by (auto simp: getBucketRange_None Set_size_def)
next
  fix r
  assume some: "getBucketRange h buckets = Some r"
  let ?S = "set (nonEmptyBuckets h buckets)"
  note facts = getBucketRange_Some [OF some]
  have fin: "finite ?S" by simp
  from fin facts(3) have "Min ?S \<in> ?S" "Max ?S \<in> ?S"
    by (rule Min_in, rule Max_in)
  then obtain lo hi where lo: "Min ?S = int lo" "lo < length buckets" "h ! (buckets ! lo) \<noteq> []"
    and hi: "Max ?S = int hi" "hi < length buckets" "h ! (buckets ! hi) \<noteq> []"
    unfolding set_nonEmptyBuckets by auto
  have between: "lo \<le> i \<and> i \<le> hi" if "i < length buckets" "Set_size (h ! (buckets ! i)) > 0" for i
  proof -
    from that have "int i \<in> ?S"
      unfolding set_nonEmptyBuckets by (simp add: Set_size_def)
    with fin have "Min ?S \<le> int i" "int i \<le> Max ?S" by simp_all
    with lo(1) hi(1) show ?thesis by simp
  qed
  from fin facts(3) have "Min ?S \<le> Max ?S" by simp
  then have le: "minBucket r \<le> maxBucket r"
    by (simp add: facts(1,2))
  have "minBucket r = int lo \<and> maxBucket r = int hi \<and>
         lo < length buckets \<and> hi < length buckets \<and>
         Set_size (h ! (buckets ! lo)) > 0 \<and> Set_size (h ! (buckets ! hi)) > 0 \<and>
         (\<forall>i < length buckets. Set_size (h ! (buckets ! i)) > 0 \<longrightarrow> lo \<le> i \<and> i \<le> hi) \<and>
         minBucket r \<le> maxBucket r"
  proof (intro conjI allI impI)
    show "minBucket r = int lo" by (simp add: facts(1) lo(1))
    show "maxBucket r = int hi" by (simp add: facts(2) hi(1))
    show "lo < length buckets" by (rule lo(2))
    show "hi < length buckets" by (rule hi(2))
    show "Set_size (h ! (buckets ! lo)) > 0" using lo(3) by (simp add: Set_size_def)
    show "Set_size (h ! (buckets ! hi)) > 0" using hi(3) by (simp add: Set_size_def)
    show "minBucket r \<le> maxBucket r" by (rule le)
  next
    fix i assume "i < length buckets" "Set_size (h ! (buckets ! i)) > 0"
    then show "lo \<le> i" "i \<le> hi" using between by blast+
  qed
  then show "\<exists>lo hi. minBucket r = int lo \<and> maxBucket r = int hi \<and>
         lo < length buckets \<and> hi < length buckets \<and>
         Set_size (h ! (buckets ! lo)) > 0 \<and> Set_size (h ! (buckets ! hi)) > 0 \<and>
         (\<forall>i < length buckets. Set_size (h ! (buckets ! i)) > 0 \<longrightarrow> lo \<le> i \<and> i \<le> hi) \<and>
         minBucket r \<le> maxBucket r"
    by blast
qed

theorem getBucketRange_lowest_and_highest_witness:
  "getBucketRange [[], [1 :: nat], [], [2]] [0, 1, 2, 3] = Some \<lparr>minBucket = 1, maxBucket = 3\<rparr> \<and>
   (\<exists>lo hi. (1 :: int) = int lo \<and> (3 :: int) = int hi \<and> lo < 4 \<and> hi < 4 \<and>
      Set_size ([[], [1 :: nat], [], [2]] ! ([0, 1, 2, 3] ! lo)) > 0 \<and>
      Set_size ([[], [1 :: nat], [], [2]] ! ([0, 1, 2, 3] ! hi)) > 0) \<and>
   getBucketRange [[], []] [0, 1 :: nat] = (None :: bucket_range option) \<and>
   Set_size ([[], []] ! ([0, 1 :: nat] ! 0) :: nat list) = 0 \<and>
   Set_size ([[], []] ! ([0, 1 :: nat] ! 1) :: nat list) = 0"
proof -
  let ?h = "[[], [1 :: nat], [], [2]]"
  let ?b = "[0, 1, 2, 3 :: nat]"
  have ex: "getBucketRange ?h ?b = Some \<lparr>minBucket = 1, maxBucket = 3\<rparr>"
    by (simp add: getBucketRange_def nonEmptyBuckets_def Set_size_def)
  from getBucketRange_lowest_and_highest [of ?h ?b, THEN conjunct2, rule_format, OF ex]
  obtain lo hi where "(1 :: int) = int lo" "(3 :: int) = int hi" "lo < 4" "hi < 4"
    "Set_size (?h ! (?b ! lo)) > 0" "Set_size (?h ! (?b ! hi)) > 0"
    by auto
  then have "\<exists>lo hi. (1 :: int) = int lo \<and> (3 :: int) = int hi \<and> lo < 4 \<and> hi < 4 \<and>
      Set_size (?h ! (?b ! lo)) > 0 \<and> Set_size (?h ! (?b ! hi)) > 0"
    by blast
  moreover have "getBucketRange [[], []] [0, 1 :: nat] = (None :: bucket_range option)"
    by (simp add: getBucketRange_def nonEmptyBuckets_def Set_size_def)
  ultimately show ?thesis using ex by (simp add: Set_size_def)
qed


section \<open>Daily practice selection\<close>

lemma js_rem_nonneg: "0 \<le> a \<Longrightarrow> 0 < b \<Longrightarrow> js_rem a b = a mod b"
  by (cases "a = 0") (simp_all add: js_rem_def)

lemma set_fold_Set_add: "set (fold Set_add xs acc) = set xs \<union> set acc"
  by (induction xs arbitrary: acc) (auto simp: Set_add_def)

lemma set_practice_step:
  "set (practice_step h buckets day i acc) =
     set acc \<union> (if js_rem day (int i + 1) = 0 then set (h ! (buckets ! i)) else {})"
  by (auto simp: practice_step_def set_fold_Set_add)

lemma set_fold_practice_step:
  "set (fold (practice_step h buckets day) is acc) =
     set acc \<union> (\<Union>i \<in> {i \<in> set is. js_rem day (int i + 1) = 0}. set (h ! (buckets ! i)))"
proof (induction "is" arbitrary: acc)
  case Nil
  show ?case by simp
next
  case (Cons i "is")
  show ?case
    unfolding fold_simps Cons.IH set_practice_step by auto
qed

text \<open>
  C8: \<^verbatim>\<open>practice\<close> fails, with its one error, exactly when the day is negative; on
  every other day it returns a set of cards.
\<close>

theorem practice_error_iff_negative_day:
  "(isl (practice h buckets day) \<longleftrightarrow> day < 0) \<and>
   (day < 0 \<longrightarrow> practice h buckets day = Inl (Error ''Day number must be non-negative'')) \<and>
   (0 \<le> day \<longrightarrow> (\<exists>selected. practice h buckets day = Inr selected))"
proof (cases "day < 0")
  case True
  then have "practice h buckets day = Inl (Error ''Day number must be non-negative'')"
    by (simp add: practice_def)
  with True show ?thesis by simp
next
  case False
  then have "practice h buckets day
      = Inr (fold (practice_step h buckets day) [0..<length buckets] [])"
    by (simp add: practice_def)
  with False show ?thesis by simp
qed

theorem practice_error_iff_negative_day_witness:
  "(- 1 :: int) < 0 \<and>
   practice [[1], [2], [3 :: nat]] [0, 1, 2] (- 1) = Inl (Error ''Day number must be non-negative'') \<and>
   (0 :: int) \<le> 2 \<and>
   (\<exists>selected. practice [[1], [2], [3 :: nat]] [0, 1, 2] 2 = Inr selected)"
  using practice_error_iff_negative_day [of "[[1], [2], [3 :: nat]]" "[0, 1, 2]" "- 1"]
    practice_error_iff_negative_day [of "[[1], [2], [3 :: nat]]" "[0, 1, 2]" 2]
  by simp

text \<open>
  The copy of \<^verbatim>\<open>practice\<close> under \<^verbatim>\<open>PS1/src\<close>: on a day that is not negative it
  returns exactly the cards of the buckets at the indices \<open>i\<close> with
  \<open>day mod (i + 1) = 0\<close>; the bucket at index 0 is always among them.
\<close>

theorem practice_selects_scheduled_buckets:
  assumes "0 \<le> day"
  shows "\<exists>selected. practice h buckets day = Inr selected \<and>
     set selected =
       (\<Union>i \<in> {i. i < length buckets \<and> day mod (int i + 1) = 0}. set (h ! (buckets ! i))) \<and>
     (buckets \<noteq> [] \<longrightarrow> set (h ! (buckets ! 0)) \<subseteq> set selected)"
proof -
  define selected where "selected = fold (practice_step h buckets day) [0..<length buckets] []"
  define scheduled where "scheduled = {i. i < length buckets \<and> day mod (int i + 1) = 0}"
  have run: "practice h buckets day = Inr selected"
    using assms by (simp add: practice_def selected_def)
  have "{i \<in> set [0..<length buckets]. js_rem day (int i + 1) = 0} = scheduled"
    using assms by (simp add: js_rem_nonneg scheduled_def)
  then have sel: "set selected = (\<Union>i \<in> scheduled. set (h ! (buckets ! i)))"
    by (simp add: selected_def set_fold_practice_step)
  have first: "set (h ! (buckets ! 0)) \<subseteq> set selected" if "buckets \<noteq> []"
  proof -
    from that have "0 \<in> scheduled" by (simp add: scheduled_def)
    then show ?thesis unfolding sel by blast
  qed
  from run sel first show ?thesis
    unfolding scheduled_def by blast
qed

theorem practice_selects_scheduled_buckets_witness:
  "(0 :: int) \<le> 2 \<and>
   (\<exists>selected. practice [[1], [2], [3 :: nat]] [0, 1, 2] 2 = Inr selected \<and>
      set selected = {1, 2})"
proof -
  have run: "practice [[1], [2], [3 :: nat]] [0, 1, 2] 2 = Inr [1, 2]"
    by (simp add: practice_def practice_step_def js_rem_def Set_add_def)
  have "(0 :: int) \<le> 2" by simp
  from practice_selects_scheduled_buckets [OF this, of "[[1], [2], [3 :: nat]]" "[0, 1, 2]"]
  obtain selected where "practice [[1], [2], [3 :: nat]] [0, 1, 2] 2 = Inr selected"
    by blast
  with run show ?thesis by auto
qed

text \<open>
  The array of the repository's test, \<open>[{c1}, {c2}, {c3}]\<close>: the function returns all
  three cards on day 0, \<open>c1\<close> alone on day 1, and \<open>c1\<close> and \<open>c2\<close> on day 2. (The test
  expects \<open>{c1, c2}\<close> on day 1 and \<open>{c1, c3}\<close> on day 2, which is not this rule.)
\<close>

lemma practice_three_buckets:
  "practice [[1], [2], [3 :: nat]] [0, 1, 2] 0 = Inr [1, 2, 3] \<and>
   practice [[1], [2], [3 :: nat]] [0, 1, 2] 1 = Inr [1] \<and>
   practice [[1], [2], [3 :: nat]] [0, 1, 2] 2 = Inr [1, 2]"
  by (simp add: practice_def practice_step_def js_rem_def Set_add_def)

text \<open>
  The copy in \<^verbatim>\<open>src/unnamed/part_000\<close> takes the bucket at index \<open>i\<close> when the day is
  a multiple of \<open>2 ^ i\<close>.
\<close>

lemma practice_pow2_selects:
  assumes "0 \<le> day"
  shows "\<exists>selected. practice_pow2 h buckets day = Inr selected \<and>
     set selected =
       (\<Union>i \<in> {i. i < length buckets \<and> day mod 2 ^ i = 0}. set (h ! (buckets ! i)))"
proof -
  let ?f = "\<lambda>(s, bucketIndex). if js_rem day (2 ^ bucketIndex) = 0 then h ! s else []"
  let ?cards = "concat (map ?f (zip buckets [0..<length buckets]))"
  have run: "practice_pow2 h buckets day = Inr (fold Set_add ?cards [])"
    using assms by (simp add: practice_pow2_def)
  have rem: "js_rem day (2 ^ i) = day mod 2 ^ i" for i :: nat
    using assms by (simp add: js_rem_nonneg)
  have "set ?cards = (\<Union>i \<in> {0..<length buckets}. set (?f (buckets ! i, i)))"
    by (auto simp: zip_indices split: if_splits)
  also have "\<dots> = (\<Union>i \<in> {i. i < length buckets \<and> day mod 2 ^ i = 0}. set (h ! (buckets ! i)))"
    by (auto simp: rem split: if_splits)
  finally have "set (fold Set_add ?cards [])
      = (\<Union>i \<in> {i. i < length buckets \<and> day mod 2 ^ i = 0}. set (h ! (buckets ! i)))"
    by (simp add: set_fold_Set_add)
  with run show ?thesis by blast
qed

text \<open>
  C1: the specification says that \<^verbatim>\<open>practice\<close> returns exactly the cards of the
  buckets at the indices \<open>i\<close> with \<open>day mod (i + 1) = 0\<close>. The repository has two copies
  of \<^verbatim>\<open>practice\<close>. The one under \<^verbatim>\<open>PS1/src\<close> does so
  (\<open>practice_selects_scheduled_buckets\<close>) and notes \<^verbatim>\<open>Changed from 2**i to (i+1)\<close>.
  The one in \<^verbatim>\<open>src/unnamed/part_000\<close> still schedules by \<open>2 ^ i\<close>: on the array
  \<open>[{c1}, {c2}, {c3}]\<close> and day 3 the bucket at index 2 is due, since 3 mod (2 + 1) = 0,
  and holds \<open>c3\<close>; the copy under \<^verbatim>\<open>PS1/src\<close> returns \<open>{c1, c3}\<close> and the other copy
  returns \<open>{c1}\<close>.
\<close>

theorem practice_of_older_copy_misses_bucket:
  "practice_pow2 [[1], [2], [3 :: nat]] [0, 1, 2] 3 = Inr [1] \<and>
   (3 :: int) mod (int 2 + 1) = 0 \<and>
   [[1], [2], [3 :: nat]] ! ([0, 1, 2] ! 2) = [3] \<and>
   practice [[1], [2], [3 :: nat]] [0, 1, 2] 3 = Inr [1, 3]"
  by (simp add: practice_pow2_def practice_def practice_step_def js_rem_def Set_add_def)

section \<open>Post-review bucket update\<close>

lemma currentBucket_of_None: "currentBucket_of h m c = None \<longleftrightarrow> \<not> card_present h m c"
  by (auto simp: currentBucket_of_def card_present_def find_None_iff Set_has_def)

lemma currentBucket_of_SomeD:
  assumes "currentBucket_of h m c = Some b"
  shows "\<exists>r. (b, r) \<in> set m \<and> c \<in> set (h ! r)"
proof -
  from assms obtain r where "find (\<lambda>(k, cards). Set_has (h ! cards) c) m = Some (b, r)"
    by (auto simp: currentBucket_of_def)
  then obtain i where "i < length m" "Set_has (h ! snd (m ! i)) c" "(b, r) = m ! i"
    unfolding find_Some_iff by (auto simp: case_prod_beta)
  then have "(b, r) \<in> set m" "c \<in> set (h ! r)"
    by (auto simp: Set_has_def dest: arg_cong [where f = snd])
  then show ?thesis by blast
qed

lemma currentBucket_of_holds_card:
  assumes "wf_buckets h m" and "currentBucket_of h m c = Some b"
  shows "c \<in> bucket_cards h m b"
proof -
  from currentBucket_of_SomeD [OF assms(2)] obtain r
    where r: "(b, r) \<in> set m" "c \<in> set (h ! r)" by blast
  from wf_map_of(1) [OF assms(1) r(1)] r(2) show ?thesis
    by (simp add: bucket_cards_def)
qed

lemma Map_size_card_keys:
  assumes "wf_buckets h m"
  shows "Map_size m = int (card (fst ` set m))"
proof -
  from assms have "distinct (map fst m)" by (simp add: wf_buckets_def)
  then have "card (set (map fst m)) = length (map fst m)" by (rule distinct_card)
  then show ?thesis by (simp add: Map_size_def)
qed

lemma length_delete_at [simp]: "length (delete_at h m k c) = length h"
  by (simp add: delete_at_def split: option.split)

lemma length_add_at [simp]: "length (add_at h m k c) = length h"
  by (simp add: add_at_def split: option.split)

lemma add_at_holds_card:
  assumes "Map_get m k = Some r" and "r < length h"
  shows "c \<in> bucket_cards (add_at h m k c) m k"
  using assms by (simp add: bucket_cards_def add_at_def Set_add_def)

lemma Map_get_Map_set: "Map_get (Map_set m k r) k' = (if k' = k then Some r else Map_get m k')"
  by (simp add: Map_get_def Map_set_def update_conv')

text \<open>The two branches of \<^verbatim>\<open>update\<close> after the card has been found.\<close>

lemma update_Some:
  assumes "currentBucket_of h m c = Some b"
  shows "update h m c d =
    (let nb = newBucket_of m b d; h1 = delete_at h m b c in
     if Map_has m nb then Inr (m, add_at h1 m nb c)
     else Inr (Map_set m nb (length h), add_at (h1 @ [[]]) (Map_set m nb (length h)) nb c))"
  using assms by (simp add: update_def Let_def)

lemma update_places_card:
  assumes wf: "wf_buckets h m" and cur: "currentBucket_of h m c = Some b"
  shows "\<exists>m' h'. update h m c d = Inr (m', h') \<and> c \<in> bucket_cards h' m' (newBucket_of m b d)"
proof (cases "Map_has m (newBucket_of m b d)")
  case True
  then obtain r where r: "Map_get m (newBucket_of m b d) = Some r"
    by (auto simp: Map_has_def Map_get_def)
  with wf have "r < length (delete_at h m b c)"
    by (simp add: wf_Map_get)
  from add_at_holds_card [OF r this] True cur show ?thesis
    by (simp add: update_Some Let_def)
next
  case False
  let ?nb = "newBucket_of m b d"
  let ?h1 = "delete_at h m b c"
  let ?m' = "Map_set m ?nb (length h)"
  have "Map_get ?m' ?nb = Some (length h)"
    by (simp add: Map_get_Map_set)
  moreover have "length h < length (?h1 @ [[]])" by simp
  ultimately have "c \<in> bucket_cards (add_at (?h1 @ [[]]) ?m' ?nb c) ?m' ?nb"
    by (rule add_at_holds_card)
  with False cur show ?thesis
    by (simp add: update_Some Let_def)
qed

lemma newBucket_of_range:
  assumes "0 < Map_size m"
  shows "0 \<le> newBucket_of m b d" and "newBucket_of m b d < Map_size m"
  using assms by (simp_all add: newBucket_of_def)

lemma currentBucket_of_nonempty:
  "currentBucket_of h m c = Some b \<Longrightarrow> 0 < Map_size m"
  by (cases m) (simp_all add: currentBucket_of_def Map_size_def)

text \<open>
  C4: \<^verbatim>\<open>update\<close> fails with \<^verbatim>\<open>Card not found\<close> exactly when no bucket's Set has
  the card; when some bucket has it, \<^verbatim>\<open>update\<close> returns a map and raises nothing.
\<close>

theorem update_not_found_iff:
  "(\<not> card_present h buckets c \<longrightarrow> update h buckets c d = Inl (Error ''Card not found'')) \<and>
   (card_present h buckets c \<longrightarrow> (\<exists>result. update h buckets c d = Inr result))"
proof (cases "currentBucket_of h buckets c")
  case None
  then have "\<not> card_present h buckets c"
    using currentBucket_of_None [of h buckets c] by simp
  moreover from None have "update h buckets c d = Inl (Error ''Card not found'')"
    by (simp add: update_def)
  ultimately show ?thesis by simp
next
  case (Some b)
  then have "card_present h buckets c"
    using currentBucket_of_None [of h buckets c] by simp
  with Some show ?thesis
    by (simp add: update_Some Let_def)
qed

theorem update_not_found_iff_witness:
  "\<not> card_present [[7 :: nat], []] [(0, 0), (1, 1)] 8 \<and>
   update [[7 :: nat], []] [(0, 0), (1, 1)] 8 Easy = Inl (Error ''Card not found'') \<and>
   card_present [[7 :: nat], []] [(0, 0), (1, 1)] 7 \<and>
   (\<exists>result. update [[7 :: nat], []] [(0, 0), (1, 1)] 7 Easy = Inr result)"
  using update_not_found_iff [of "[[7 :: nat], []]" "[(0, 0), (1, 1)]" 8 Easy]
    update_not_found_iff [of "[[7 :: nat], []]" "[(0, 0), (1, 1)]" 7 Easy]
  by (simp add: card_present_def)

text \<open>
  The clamp ceiling is the number of keys, not the highest key: a card whose bucket
  index is at least that number goes to bucket \<open>size - 1\<close> on Easy.
\<close>

lemma newBucket_of_Easy_above_size:
  assumes "0 < Map_size m" and "Map_size m \<le> b"
  shows "newBucket_of m b Easy = Map_size m - 1"
  using assms by (simp add: newBucket_of_def bucketAdjustment_def)

lemma update_example_demotion:
  "wf_buckets [[7 :: nat], []] [(5, 0), (0, 1)] \<and>
   currentBucket_of [[7 :: nat], []] [(5, 0), (0, 1)] 7 = Some 5 \<and>
   update [[7 :: nat], []] [(5, 0), (0, 1)] 7 Easy = Inr ([(5, 0), (0, 1), (1, 2)], [[], [], [7]])"
  by (simp add: wf_buckets_def currentBucket_of_def Set_has_def update_def newBucket_of_def
      bucketAdjustment_def Map_size_def delete_at_def add_at_def Map_get_def Map_has_def
      Map_set_def Set_delete_def Set_add_def)

text \<open>
  C10: Easy can move a card down. There is a map with exactly two keys and a card in
  bucket 5 that \<^verbatim>\<open>update\<close> with Easy moves to bucket 1; and whenever the card's
  bucket index is at least the number of keys, Easy puts the card into the bucket
  with index (number of keys - 1), which is strictly lower.
\<close>

theorem update_Easy_can_demote:
  "(\<exists>(h :: nat heap) buckets c newBuckets h'.
      wf_buckets h buckets \<and> card (fst ` set buckets) = 2 \<and>
      currentBucket_of h buckets c = Some 5 \<and>
      update h buckets c Easy = Inr (newBuckets, h') \<and>
      c \<in> bucket_cards h' newBuckets 1 \<and> c \<notin> bucket_cards h' newBuckets 5) \<and>
   (\<forall>(h :: 'c heap) buckets c b.
      wf_buckets h buckets \<and> currentBucket_of h buckets c = Some b \<and>
      int (card (fst ` set buckets)) \<le> b \<longrightarrow>
      (\<exists>newBuckets h'.
         update h buckets c Easy = Inr (newBuckets, h') \<and>
         c \<in> bucket_cards h' newBuckets (int (card (fst ` set buckets)) - 1) \<and>
         int (card (fst ` set buckets)) - 1 < b))"
proof (intro conjI allI impI)
  let ?h = "[[7 :: nat], []]"
  let ?m = "[(5, 0), (0, 1)] :: BucketMap"
  have "fst ` set ?m = {5, 0}" by simp
  then have "card (fst ` set ?m) = 2" by simp
  moreover have "7 \<in> bucket_cards [[], [], [7 :: nat]] [(5, 0), (0, 1), (1, 2)] 1"
    by (simp add: bucket_cards_def Map_get_def)
  moreover have "7 \<notin> bucket_cards [[], [], [7 :: nat]] [(5, 0), (0, 1), (1, 2)] 5"
    by (simp add: bucket_cards_def Map_get_def)
  ultimately show "\<exists>(h :: nat heap) buckets c newBuckets h'.
      wf_buckets h buckets \<and> card (fst ` set buckets) = 2 \<and>
      currentBucket_of h buckets c = Some 5 \<and>
      update h buckets c Easy = Inr (newBuckets, h') \<and>
      c \<in> bucket_cards h' newBuckets 1 \<and> c \<notin> bucket_cards h' newBuckets 5"
    using update_example_demotion by blast
next
  fix h :: "'c heap" and buckets c b
  assume a: "wf_buckets h buckets \<and> currentBucket_of h buckets c = Some b \<and>
      int (card (fst ` set buckets)) \<le> b"
  then have wf: "wf_buckets h buckets" and cur: "currentBucket_of h buckets c = Some b"
    by simp_all
  have size: "Map_size buckets = int (card (fst ` set buckets))"
    using wf by (rule Map_size_card_keys)
  have pos: "0 < Map_size buckets" using cur by (rule currentBucket_of_nonempty)
  from a have "Map_size buckets \<le> b" by (simp add: size)
  with pos have nb: "newBucket_of buckets b Easy = Map_size buckets - 1"
    by (rule newBucket_of_Easy_above_size)
  from update_places_card [OF wf cur, of Easy] obtain m' h'
    where "update h buckets c Easy = Inr (m', h')"
      and "c \<in> bucket_cards h' m' (Map_size buckets - 1)"
    unfolding nb by blast
  moreover from a have "int (card (fst ` set buckets)) - 1 < b" by simp
  ultimately show "\<exists>newBuckets h'.
         update h buckets c Easy = Inr (newBuckets, h') \<and>
         c \<in> bucket_cards h' newBuckets (int (card (fst ` set buckets)) - 1) \<and>
         int (card (fst ` set buckets)) - 1 < b"
    unfolding size by blast
qed

theorem update_Easy_can_demote_witness:
  "wf_buckets [[7 :: nat], []] [(5, 0), (0, 1)] \<and>
   currentBucket_of [[7 :: nat], []] [(5, 0), (0, 1)] 7 = Some 5 \<and>
   int (card (fst ` set [(5 :: int, 0 :: nat), (0, 1)])) \<le> 5 \<and>
   (\<exists>newBuckets h'.
      update [[7 :: nat], []] [(5, 0), (0, 1)] 7 Easy = Inr (newBuckets, h') \<and>
      7 \<in> bucket_cards h' newBuckets 1 \<and> (1 :: int) < 5)"
proof -
  let ?h = "[[7 :: nat], []]"
  let ?m = "[(5, 0), (0, 1)] :: BucketMap"
  have wf: "wf_buckets ?h ?m" by (simp add: wf_buckets_def)
  have cur: "currentBucket_of ?h ?m 7 = Some 5"
    by (simp add: currentBucket_of_def Set_has_def)
  have "fst ` set ?m = {5, 0}" by simp
  then have keys: "int (card (fst ` set ?m)) = 2" by simp
  have "wf_buckets ?h ?m \<and> currentBucket_of ?h ?m 7 = Some 5 \<and> int (card (fst ` set ?m)) \<le> 5"
    using wf cur keys by simp
  with update_Easy_can_demote [where 'c = nat, THEN conjunct2, rule_format, of ?h ?m 7 5]
  obtain newBuckets h' where "update ?h ?m 7 Easy = Inr (newBuckets, h')"
    and "7 \<in> bucket_cards h' newBuckets (int (card (fst ` set ?m)) - 1)"
    by blast
  then show ?thesis using wf cur unfolding keys by auto
qed

lemma own_sets_key:
  assumes "own_sets m" and "Map_get m k = Some r" and "Map_get m k' = Some r"
  shows "k = k'"
proof -
  from assms(1) have "inj_on snd (set m)"
    by (simp add: own_sets_def distinct_map)
  moreover from assms(2,3) have "(k, r) \<in> set m" "(k', r) \<in> set m"
    by (simp_all add: Map_get_SomeD)
  ultimately have "(k, r) = (k', r)"
    using inj_onD [of snd "set m" "(k, r)" "(k', r)"] by simp
  then show ?thesis by simp
qed

lemma bucket_cards_absent: "Map_get m k = None \<Longrightarrow> bucket_cards h m k = {}"
  by (simp add: bucket_cards_def)

lemma bucket_cards_delete_at:
  assumes wf: "wf_buckets h m" and own: "own_sets m" and b: "Map_get m b = Some rb"
  shows "bucket_cards (delete_at h m b c) m k =
      (if k = b then bucket_cards h m b - {c} else bucket_cards h m k)"
proof (cases "Map_get m k")
  case None
  with b show ?thesis by (auto simp: bucket_cards_def)
next
  case (Some r)
  from wf b have rb: "rb < length h" by (rule wf_Map_get)
  from own_sets_key [OF own Some, of b] b Some have "r = rb \<longleftrightarrow> k = b" by auto
  with Some b rb show ?thesis
    by (auto simp: bucket_cards_def delete_at_def Set_delete_def nth_list_update)
qed

lemma bucket_cards_add_at:
  assumes wf: "wf_buckets h m" and own: "own_sets m" and n: "Map_get m n = Some rn"
  shows "bucket_cards (add_at h m n c) m k =
      (if k = n then insert c (bucket_cards h m n) else bucket_cards h m k)"
proof (cases "Map_get m k")
  case None
  with n show ?thesis by (auto simp: bucket_cards_def)
next
  case (Some r)
  from wf n have rn: "rn < length h" by (rule wf_Map_get)
  from own_sets_key [OF own Some, of n] n Some have "r = rn \<longleftrightarrow> k = n" by auto
  with Some n rn show ?thesis
    by (auto simp: bucket_cards_def add_at_def Set_add_def nth_list_update)
qed

lemma wf_delete_at: "wf_buckets h m \<Longrightarrow> wf_buckets (delete_at h m b c) m"
  by (simp add: wf_buckets_def)

lemma currentBucket_of_Map_get:
  assumes "wf_buckets h m" and "currentBucket_of h m c = Some b"
  shows "\<exists>r. Map_get m b = Some r"
  using currentBucket_of_SomeD [OF assms(2)] wf_map_of(1) [OF assms(1)] by blast

text \<open>
  What the returned map holds when every key of the input has a Set object of its own:
  the card is out of its old bucket and in the new one, and every other bucket is as
  before. A target key that was absent is created with the card alone.
\<close>

lemma update_bucket_cards:
  assumes wf: "wf_buckets h m" and own: "own_sets m"
    and cur: "currentBucket_of h m c = Some b"
    and upd: "update h m c d = Inr (m', h')"
  shows "bucket_cards h' m' k =
      (if k = newBucket_of m b d then insert c (bucket_cards h m k)
       else if k = b then bucket_cards h m b - {c}
       else bucket_cards h m k)"
proof -
  let ?nb = "newBucket_of m b d"
  let ?h1 = "delete_at h m b c"
  from currentBucket_of_Map_get [OF wf cur] obtain rb where rb: "Map_get m b = Some rb"
    by blast
  note del = bucket_cards_delete_at [OF wf own rb, of c]
  have wf1: "wf_buckets ?h1 m" using wf by (rule wf_delete_at)
  show ?thesis
  proof (cases "Map_has m ?nb")
    case True
    then obtain rn where rn: "Map_get m ?nb = Some rn"
      by (auto simp: Map_has_def Map_get_def)
    from True cur have "update h m c d = Inr (m, add_at ?h1 m ?nb c)"
      by (simp add: update_Some Let_def)
    with upd have res: "m' = m" "h' = add_at ?h1 m ?nb c"
      by auto
    show ?thesis
      unfolding res bucket_cards_add_at [OF wf1 own rn] del by auto
  next
    case False
    then have absent: "Map_get m ?nb = None"
      by (simp add: Map_has_def Map_get_def)
    from False cur have "update h m c d = Inr (Map_set m ?nb (length h),
        add_at (?h1 @ [[]]) (Map_set m ?nb (length h)) ?nb c)"
      by (simp add: update_Some Let_def)
    with upd have res: "m' = Map_set m ?nb (length h)"
        "h' = add_at (?h1 @ [[]]) (Map_set m ?nb (length h)) ?nb c"
      by auto
    have h': "h' = ?h1 @ [[c]]"
      unfolding res
      by (simp add: add_at_def Map_get_Map_set Set_add_def nth_append list_update_append)
    show ?thesis
    proof (cases "k = ?nb")
      case True
      with absent show ?thesis
        unfolding h' res(1) by (simp add: bucket_cards_def Map_get_Map_set nth_append)
    next
      case False
      have "bucket_cards (?h1 @ [[c]]) m k = bucket_cards ?h1 m k"
      proof (cases "Map_get m k")
        case None
        then show ?thesis by (simp add: bucket_cards_def)
      next
        case (Some r)
        with wf1 have "r < length ?h1" by (rule wf_Map_get)
        with Some show ?thesis by (simp add: bucket_cards_def nth_append)
      qed
      with False show ?thesis
        unfolding h' res(1) del by (simp add: bucket_cards_def Map_get_Map_set)
    qed
  qed
qed

lemma one_bucket_per_card_all:
  "one_bucket_per_card h m \<longleftrightarrow>
     (\<forall>k k'. k \<noteq> k' \<longrightarrow> bucket_cards h m k \<inter> bucket_cards h m k' = {})"
proof -
  have "bucket_cards h m k = {}" if "k \<notin> fst ` set m" for k
  proof -
    from that have "map_of m k = None" by (simp add: map_of_eq_None_iff)
    then show ?thesis by (simp add: bucket_cards_def Map_get_def)
  qed
  note empty = this
  show ?thesis
  proof
    assume inv: "one_bucket_per_card h m"
    show "\<forall>k k'. k \<noteq> k' \<longrightarrow> bucket_cards h m k \<inter> bucket_cards h m k' = {}"
    proof (intro allI impI)
      fix k k' :: int
      assume ne: "k \<noteq> k'"
      show "bucket_cards h m k \<inter> bucket_cards h m k' = {}"
      proof (cases "k \<in> fst ` set m \<and> k' \<in> fst ` set m")
        case True
        with inv ne show ?thesis unfolding one_bucket_per_card_def by blast
      next
        case False
        then have "bucket_cards h m k = {} \<or> bucket_cards h m k' = {}"
          using empty by blast
        then show ?thesis by blast
      qed
    qed
  next
    assume "\<forall>k k'. k \<noteq> k' \<longrightarrow> bucket_cards h m k \<inter> bucket_cards h m k' = {}"
    then show "one_bucket_per_card h m" by (simp add: one_bucket_per_card_def)
  qed
qed

text \<open>
  With one Set object per key, \<^verbatim>\<open>update\<close> keeps every card in at most one bucket,
  and the reviewed card is in the new bucket and in no other.
\<close>

lemma update_keeps_one_bucket_per_card:
  assumes wf: "wf_buckets h m" and own: "own_sets m"
    and inv: "one_bucket_per_card h m"
    and cur: "currentBucket_of h m c = Some b"
    and upd: "update h m c d = Inr (m', h')"
  shows "one_bucket_per_card h' m'"
    and "c \<in> bucket_cards h' m' k \<longleftrightarrow> k = newBucket_of m b d"
proof -
  note new = update_bucket_cards [OF wf own cur upd]
  from inv have disj: "bucket_cards h m k \<inter> bucket_cards h m k' = {}" if "k \<noteq> k'" for k k'
    using that by (simp add: one_bucket_per_card_all)
  have cb: "c \<in> bucket_cards h m b"
    using wf cur by (rule currentBucket_of_holds_card)
  have only_b: "c \<notin> bucket_cards h m j" if "j \<noteq> b" for j
    using disj [OF that] cb by blast
  show c_at: "c \<in> bucket_cards h' m' k \<longleftrightarrow> k = newBucket_of m b d" for k
    unfolding new using only_b by auto
  have other: "x \<in> bucket_cards h m j" if "x \<in> bucket_cards h' m' j" "x \<noteq> c" for x j
    using that unfolding new by (auto split: if_splits)
  have "bucket_cards h' m' j \<inter> bucket_cards h' m' j' = {}" if "j \<noteq> j'" for j j'
  proof (rule ccontr)
    assume "bucket_cards h' m' j \<inter> bucket_cards h' m' j' \<noteq> {}"
    then obtain x where x: "x \<in> bucket_cards h' m' j" "x \<in> bucket_cards h' m' j'"
      by blast
    show False
    proof (cases "x = c")
      case True
      with x have "j = newBucket_of m b d" "j' = newBucket_of m b d"
        by (simp_all add: c_at)
      with that show False by simp
    next
      case False
      with x other have "x \<in> bucket_cards h m j" "x \<in> bucket_cards h m j'" by blast+
      with disj [OF that] show False by blast
    qed
  qed
  then show "one_bucket_per_card h' m'"
    by (simp add: one_bucket_per_card_all)
qed


lemma Map_set_absent:
  "Map_get m k = None \<Longrightarrow> Map_set m k r = m @ [(k, r)]"
  unfolding Map_get_def Map_set_def
  by (induction m) (auto split: if_splits)

text \<open>The map and store that \<^verbatim>\<open>update\<close> returns fit together again.\<close>

lemma wf_buckets_update:
  assumes wf: "wf_buckets h m" and cur: "currentBucket_of h m c = Some b"
    and upd: "update h m c d = Inr (m', h')"
  shows "wf_buckets h' m'"
proof (cases "Map_has m (newBucket_of m b d)")
  case True
  with cur have "update h m c d
      = Inr (m, add_at (delete_at h m b c) m (newBucket_of m b d) c)"
    by (simp add: update_Some Let_def)
  with upd have "m' = m" "h' = add_at (delete_at h m b c) m (newBucket_of m b d) c"
    by auto
  with wf show ?thesis by (simp add: wf_buckets_def)
next
  case False
  let ?nb = "newBucket_of m b d"
  let ?m' = "Map_set m ?nb (length h)"
  from False have absent: "Map_get m ?nb = None"
    by (simp add: Map_has_def Map_get_def)
  from False cur have "update h m c d
      = Inr (?m', add_at (delete_at h m b c @ [[]]) ?m' ?nb c)"
    by (simp add: update_Some Let_def)
  with upd have res: "m' = ?m'" "h' = add_at (delete_at h m b c @ [[]]) ?m' ?nb c"
    by auto
  have m': "?m' = m @ [(?nb, length h)]"
    using absent by (rule Map_set_absent)
  from absent have "?nb \<notin> fst ` set m"
    by (simp add: Map_get_def map_of_eq_None_iff)
  with wf show ?thesis
    unfolding res m' by (auto simp: wf_buckets_def list_all_iff)
qed

lemma bucket_cards_present:
  assumes "c \<in> bucket_cards h m k"
  shows "card_present h m c"
proof -
  from assms obtain r where "Map_get m k = Some r" "c \<in> set (h ! r)"
    by (auto simp: bucket_cards_def split: option.splits)
  then have "(k, r) \<in> set m" "c \<in> set (h ! r)"
    by (simp_all add: Map_get_SomeD)
  then show ?thesis unfolding card_present_def by blast
qed

text \<open>
  C2: when the map holds the card, \<^verbatim>\<open>update\<close> puts it into the bucket with index
  \<open>max 0 (min (b + d) (size - 1))\<close>, where \<open>b\<close> is the bucket the card was found in,
  \<open>size\<close> the number of distinct keys of the input map and \<open>d\<close> is 1 for Easy, -1 for
  Hard and 0 for Wrong; that index is at least 0 and below \<open>size\<close>. When every key has
  a Set object of its own and no card is in two buckets, the card is in that bucket
  and in no other bucket of the returned map, and looking the card up in the returned
  map gives that index.
\<close>

theorem update_places_card_at_clamped_bucket:
  assumes "wf_buckets h buckets" and "card_present h buckets c"
  shows "\<exists>b newBuckets h'.
     currentBucket_of h buckets c = Some b \<and> c \<in> bucket_cards h buckets b \<and>
     update h buckets c d = Inr (newBuckets, h') \<and>
     c \<in> bucket_cards h' newBuckets
       (max 0 (min (b + (case d of Easy \<Rightarrow> 1 | Hard \<Rightarrow> - 1 | Wrong \<Rightarrow> 0))
          (int (card (fst ` set buckets)) - 1))) \<and>
     0 \<le> max 0 (min (b + (case d of Easy \<Rightarrow> 1 | Hard \<Rightarrow> - 1 | Wrong \<Rightarrow> 0))
          (int (card (fst ` set buckets)) - 1)) \<and>
     max 0 (min (b + (case d of Easy \<Rightarrow> 1 | Hard \<Rightarrow> - 1 | Wrong \<Rightarrow> 0))
          (int (card (fst ` set buckets)) - 1)) < int (card (fst ` set buckets)) \<and>
     (own_sets buckets \<and> one_bucket_per_card h buckets \<longrightarrow>
        (\<forall>k. c \<in> bucket_cards h' newBuckets k \<longleftrightarrow>
           k = max 0 (min (b + (case d of Easy \<Rightarrow> 1 | Hard \<Rightarrow> - 1 | Wrong \<Rightarrow> 0))
                 (int (card (fst ` set buckets)) - 1))) \<and>
        currentBucket_of h' newBuckets c =
          Some (max 0 (min (b + (case d of Easy \<Rightarrow> 1 | Hard \<Rightarrow> - 1 | Wrong \<Rightarrow> 0))
                 (int (card (fst ` set buckets)) - 1))))"
proof -
  from assms(2) obtain b where cur: "currentBucket_of h buckets c = Some b"
    using currentBucket_of_None [of h buckets c] by (cases "currentBucket_of h buckets c") auto
  have size: "Map_size buckets = int (card (fst ` set buckets))"
    using assms(1) by (rule Map_size_card_keys)
  define nb where "nb = max 0 (min (b + (case d of Easy \<Rightarrow> 1 | Hard \<Rightarrow> - 1 | Wrong \<Rightarrow> 0))
        (int (card (fst ` set buckets)) - 1))"
  have nb: "newBucket_of buckets b d = nb"
    unfolding newBucket_of_def size nb_def by (cases d) (simp_all add: bucketAdjustment_def)
  from update_places_card [OF assms(1) cur, of d] obtain m' h'
    where upd: "update h buckets c d = Inr (m', h')"
      and placed: "c \<in> bucket_cards h' m' nb"
    unfolding nb by blast
  have pos: "0 < Map_size buckets" using cur by (rule currentBucket_of_nonempty)
  from newBucket_of_range [OF pos, of b d]
  have range: "0 \<le> nb" "nb < int (card (fst ` set buckets))"
    unfolding nb size by simp_all
  have old: "c \<in> bucket_cards h buckets b"
    using assms(1) cur by (rule currentBucket_of_holds_card)
  have exact: "(\<forall>k. c \<in> bucket_cards h' m' k \<longleftrightarrow> k = nb) \<and>
      currentBucket_of h' m' c = Some nb"
    if own: "own_sets buckets" and inv: "one_bucket_per_card h buckets"
  proof -
    have only: "c \<in> bucket_cards h' m' k \<longleftrightarrow> k = nb" for k
      using update_keeps_one_bucket_per_card(2) [OF assms(1) own inv cur upd, of k]
      by (simp add: nb)
    have wf': "wf_buckets h' m'"
      using assms(1) cur upd by (rule wf_buckets_update)
    from placed have "card_present h' m' c" by (rule bucket_cards_present)
    then obtain k where k: "currentBucket_of h' m' c = Some k"
      using currentBucket_of_None [of h' m' c] by (cases "currentBucket_of h' m' c") auto
    from wf' k have "c \<in> bucket_cards h' m' k" by (rule currentBucket_of_holds_card)
    with only have "k = nb" by simp
    with k only show ?thesis by simp
  qed
  from cur old upd placed range exact show ?thesis
    unfolding nb_def by blast
qed

theorem update_places_card_at_clamped_bucket_witness:
  "wf_buckets [[7 :: nat], []] [(0, 0), (1, 1)] \<and>
   card_present [[7 :: nat], []] [(0, 0), (1, 1)] 7 \<and>
   own_sets [(0, 0), (1, 1)] \<and>
   one_bucket_per_card [[7 :: nat], []] [(0, 0), (1, 1)] \<and>
   (\<exists>newBuckets h'.
      currentBucket_of [[7 :: nat], []] [(0, 0), (1, 1)] 7 = Some 0 \<and>
      update [[7 :: nat], []] [(0, 0), (1, 1)] 7 Easy = Inr (newBuckets, h') \<and>
      7 \<in> bucket_cards h' newBuckets 1 \<and>
      7 \<notin> bucket_cards h' newBuckets 0 \<and>
      currentBucket_of h' newBuckets 7 = Some 1)"
proof -
  let ?h = "[[7 :: nat], []]"
  let ?m = "[(0, 0), (1, 1)] :: BucketMap"
  have wf: "wf_buckets ?h ?m" by (simp add: wf_buckets_def)
  have present: "card_present ?h ?m 7" by (simp add: card_present_def)
  have own: "own_sets ?m" by (simp add: own_sets_def)
  have inv: "one_bucket_per_card ?h ?m"
    by (simp add: one_bucket_per_card_def bucket_cards_def Map_get_def)
  have cur: "currentBucket_of ?h ?m 7 = Some 0"
    by (simp add: currentBucket_of_def Set_has_def)
  have "fst ` set ?m = {0, 1}" by simp
  then have keys: "int (card (fst ` set ?m)) = 2" by simp
  from update_places_card_at_clamped_bucket [OF wf present, of Easy] cur own inv
  obtain newBuckets h' where "update ?h ?m 7 Easy = Inr (newBuckets, h')"
    and "\<forall>k. 7 \<in> bucket_cards h' newBuckets k \<longleftrightarrow>
           k = max 0 (min (0 + 1) (int (card (fst ` set ?m)) - 1))"
    and "currentBucket_of h' newBuckets 7 =
           Some (max 0 (min (0 + 1) (int (card (fst ` set ?m)) - 1)))"
    by auto
  then have "update ?h ?m 7 Easy = Inr (newBuckets, h') \<and>
      7 \<in> bucket_cards h' newBuckets 1 \<and> 7 \<notin> bucket_cards h' newBuckets 0 \<and>
      currentBucket_of h' newBuckets 7 = Some 1"
    unfolding keys by simp
  with wf present own inv cur show ?thesis by blast
qed

text \<open>
  C3: the specification says that \<^verbatim>\<open>update\<close> leaves the input map as it was, and the
  source comments \<^verbatim>\<open>Create new Map to avoid mutating the original\<close>. The new Map is
  a copy of the entries only. On the map \<open>{0: {c}, 1: {}}\<close> with Easy, the returned Map
  has the Set objects of the input Map, and both were changed in place: read after the
  call, the input map has lost the card from bucket 0 and gained it in bucket 1.
\<close>

theorem update_changes_input_map:
  "update [[7 :: nat], []] [(0, 0), (1, 1)] 7 Easy = Inr ([(0, 0), (1, 1)], [[], [7]]) \<and>
   contents [[7 :: nat], []] [(0, 0), (1, 1)] = [(0, [7]), (1, [])] \<and>
   contents [[], [7 :: nat]] [(0, 0), (1, 1)] = [(0, []), (1, [7])]"
  by (simp add: contents_def update_def currentBucket_of_def Set_has_def newBucket_of_def
      bucketAdjustment_def Map_size_def delete_at_def add_at_def Map_get_def Map_has_def
      Map_set_def Set_delete_def Set_add_def)

text \<open>
  C9: the specification says that \<^verbatim>\<open>update\<close> keeps every card in at most one bucket.
  With one Set object per key it does (\<open>update_keeps_one_bucket_per_card\<close>). On a map
  whose keys 0 and 1 hold one and the same empty Set object and whose key 2 holds the
  card, every card is in at most one bucket before the call; Hard adds the card to the
  shared Set in place, and in the returned map the card is in bucket 0 and in bucket 1.
\<close>

theorem update_shared_set_duplicates_card:
  "bucket_cards [[], [7 :: nat]] [(0, 0), (1, 0), (2, 1)] 0 = {} \<and>
   bucket_cards [[], [7 :: nat]] [(0, 0), (1, 0), (2, 1)] 1 = {} \<and>
   bucket_cards [[], [7 :: nat]] [(0, 0), (1, 0), (2, 1)] 2 = {7} \<and>
   update [[], [7 :: nat]] [(0, 0), (1, 0), (2, 1)] 7 Hard
     = Inr ([(0, 0), (1, 0), (2, 1)], [[7], []]) \<and>
   bucket_cards [[7 :: nat], []] [(0, 0), (1, 0), (2, 1)] 0 = {7} \<and>
   bucket_cards [[7 :: nat], []] [(0, 0), (1, 0), (2, 1)] 1 = {7}"
  by (simp add: bucket_cards_def update_def currentBucket_of_def Set_has_def newBucket_of_def
      bucketAdjustment_def Map_size_def delete_at_def add_at_def Map_get_def Map_has_def
      Map_set_def Set_delete_def Set_add_def)


section \<open>Hint derivation\<close>

lemma rev_dropWhile_takeWhile: "rev (dropWhile P ys) @ rev (takeWhile P ys) = rev ys"
proof -
  have "rev (takeWhile P ys @ dropWhile P ys) = rev ys" by simp
  then show ?thesis by (simp only: rev_append)
qed

lemma trim_decomposition:
  "\<exists>pre post. s = pre @ trim s @ post \<and> list_all is_white pre \<and> list_all is_white post"
proof -
  let ?t = "dropWhile is_white s"
  have s: "s = takeWhile is_white s @ ?t" by simp
  have t: "?t = trim s @ rev (takeWhile is_white (rev ?t))"
    unfolding trim_def rev_dropWhile_takeWhile by simp
  have "s = takeWhile is_white s @ trim s @ rev (takeWhile is_white (rev ?t))"
    using s t by simp
  moreover have "list_all is_white (takeWhile is_white s)"
    by (auto simp: list_all_iff dest: set_takeWhileD)
  moreover have "list_all is_white (rev (takeWhile is_white (rev ?t)))"
    by (auto simp: list_all_iff dest: set_takeWhileD)
  ultimately show ?thesis by blast
qed

lemma trim_empty_iff: "trim s = [] \<longleftrightarrow> list_all is_white s"
proof
  assume "trim s = []"
  with trim_decomposition [of s] show "list_all is_white s"
    by auto
next
  assume "list_all is_white s"
  then show "trim s = []"
    by (auto simp: trim_def list_all_iff dest: set_dropWhileD)
qed

lemma last_dropWhile:
  assumes "dropWhile P xs \<noteq> []"
  shows "last (dropWhile P xs) = last xs"
proof -
  have "last xs = last (takeWhile P xs @ dropWhile P xs)" by simp
  also have "\<dots> = last (dropWhile P xs)" using assms by (rule last_appendR)
  finally show ?thesis by simp
qed

lemma trim_ends:
  assumes "trim s \<noteq> []"
  shows "\<not> is_white (hd (trim s))" and "\<not> is_white (last (trim s))"
proof -
  let ?t = "dropWhile is_white s"
  let ?u = "dropWhile is_white (rev ?t)"
  from assms have u: "?u \<noteq> []" by (simp add: trim_def)
  have t: "?t \<noteq> []"
  proof
    assume "?t = []"
    with u show False by simp
  qed
  have "hd (trim s) = last ?u" using u by (simp add: trim_def hd_rev)
  also have "\<dots> = last (rev ?t)" using u by (rule last_dropWhile)
  also have "\<dots> = hd ?t" using t by (simp add: last_rev)
  finally have "hd (trim s) = hd ?t" .
  with t show "\<not> is_white (hd (trim s))" by (simp add: hd_dropWhile)
  have "last (trim s) = hd ?u" using u by (simp add: trim_def last_rev)
  with u show "\<not> is_white (last (trim s))" by (simp add: hd_dropWhile)
qed

text \<open>
  C7: \<^verbatim>\<open>getHint\<close> returns the trimmed hint when that is not empty, and otherwise
  the fixed sentence followed by the front as it is. The trimmed hint is the hint
  without the white space at its two ends; it is empty exactly when the hint is empty
  or all white space. The result depends on the hint and the front only.
\<close>

theorem getHint_trimmed_or_generated:
  "(\<exists>pre post. hint flashcard = pre @ trim (hint flashcard) @ post \<and>
      list_all is_white pre \<and> list_all is_white post) \<and>
   (trim (hint flashcard) = [] \<longleftrightarrow> list_all is_white (hint flashcard)) \<and>
   (trim (hint flashcard) \<noteq> [] \<longrightarrow>
      \<not> is_white (hd (trim (hint flashcard))) \<and> \<not> is_white (last (trim (hint flashcard))) \<and>
      getHint flashcard = trim (hint flashcard)) \<and>
   (trim (hint flashcard) = [] \<longrightarrow>
      getHint flashcard = ''Think about the key concepts related to '' @ front flashcard) \<and>
   (\<forall>other. hint other = hint flashcard \<and> front other = front flashcard \<longrightarrow>
      getHint other = getHint flashcard)"
  using trim_decomposition [of "hint flashcard"] trim_empty_iff [of "hint flashcard"]
    trim_ends [of "hint flashcard"]
  by (simp add: getHint_def)

theorem getHint_trimmed_or_generated_witness:
  "trim ''  a b '' \<noteq> [] \<and>
   getHint \<lparr>front = ''X?'', back_text = ''Y'', hint = ''  a b '', tags = []\<rparr> = ''a b'' \<and>
   trim ''   '' = [] \<and>
   getHint \<lparr>front = ''X?'', back_text = ''Y'', hint = ''   '', tags = []\<rparr>
     = ''Think about the key concepts related to X?''"
proof -
  let ?custom = "\<lparr>front = ''X?'', back_text = ''Y'', hint = ''  a b '', tags = []\<rparr>"
  let ?blank = "\<lparr>front = ''X?'', back_text = ''Y'', hint = ''   '', tags = []\<rparr>"
  have a: "trim ''  a b '' = ''a b''" by (simp add: trim_def is_white_def)
  have b: "trim ''   '' = []" by (simp add: trim_def is_white_def)
  have "trim (hint ?custom) \<noteq> []" by (simp add: a)
  with getHint_trimmed_or_generated [of ?custom]
  have "getHint ?custom = trim (hint ?custom)" by blast
  then have custom: "getHint ?custom = ''a b''" by (simp add: a)
  have "trim (hint ?blank) = []" by (simp add: b)
  with getHint_trimmed_or_generated [of ?blank]
  have "getHint ?blank = ''Think about the key concepts related to '' @ front ?blank" by blast
  then have blank: "getHint ?blank = ''Think about the key concepts related to X?''" by simp
  from a b custom blank show ?thesis by simp
qed


end
